theory Spec2Isabelle
  imports Main "HOL-Library.Word" "HOL-Library.Multiset" "HOL-Library.Sublist"
begin

section \<open>The image scanner \<open>scan_images.go\<close>\<close>

text \<open>
  The program walks a directory tree with \<open>filepath.Walk\<close>, prints every file whose
  extension is a known image extension, sums their sizes, counts them per containing
  directory, and finally lists the directories holding more than five images.

  The repository's own code (\<open>imageExtensions\<close>, \<open>ignoreDirs\<close>, the callback of
  \<open>scanDirectory\<close>, \<open>printDirectoryFileCounts\<close>, \<open>main\<close>) is translated function by
  function. The Go standard library functions it calls (\<open>strings.Contains\<close>,
  \<open>strings.ToLower\<close>, \<open>filepath.Ext\<close>, \<open>filepath.Dir\<close>, \<open>filepath.Join\<close>,
  \<open>filepath.Clean\<close>, \<open>filepath.Walk\<close>) are modelled after their sources, for a system
  whose path separator is \<open>/\<close>. Strings are byte strings, as in Go.
\<close>

subsection \<open>\<open>strings.Contains\<close> and \<open>strings.ToLower\<close>\<close>

text \<open>\<open>strings.Contains s sub\<close>: \<open>sub\<close> occurs in \<open>s\<close> as a contiguous run of bytes.\<close>

fun Contains :: "string \<Rightarrow> string \<Rightarrow> bool" where
  "Contains [] sub = (sub = [])"
| "Contains (c # s) sub = (prefix sub (c # s) \<or> Contains s sub)"

definition isUpperASCII :: "char \<Rightarrow> bool" where
  "isUpperASCII c = (65 \<le> (of_char c :: nat) \<and> (of_char c :: nat) \<le> 90)"

definition lowerASCII :: "char \<Rightarrow> char" where
  "lowerASCII c = (if isUpperASCII c then char_of ((of_char c :: nat) + 32) else c)"

definition isASCII :: "string \<Rightarrow> bool" where
  "isASCII s = list_all (\<lambda>c. (of_char c :: nat) < 128) s"

text \<open>
  \<open>strings.ToLower\<close> has two paths. A string of bytes below \<open>0x80\<close> is mapped byte by
  byte, \<open>A\<close>..\<open>Z\<close> to \<open>a\<close>..\<open>z\<close>. Any other string is decoded as UTF-8 and mapped
  rune by rune through the Unicode tables; that mapping is the parameter
  \<open>unicodeLower\<close>, about which nothing is assumed.
\<close>

definition ToLower :: "(string \<Rightarrow> string) \<Rightarrow> string \<Rightarrow> string" where
  "ToLower unicodeLower s = (if isASCII s then map lowerASCII s else unicodeLower s)"

subsection \<open>\<open>path/filepath\<close>\<close>

text \<open>
  \<open>filepath.Ext\<close> scans the path from its end, stops at a separator, and returns the
  suffix that starts at the first dot it meets. \<open>ExtLoop\<close> is that loop: its first
  argument is what is still to be scanned, last byte first, its second the bytes
  already passed.
\<close>

fun ExtLoop :: "string \<Rightarrow> string \<Rightarrow> string" where
  "ExtLoop [] acc = []"
| "ExtLoop (c # r) acc =
     (if c = CHR ''/'' then []
      else if c = CHR ''.'' then c # acc
      else ExtLoop r (c # acc))"

definition Ext :: "string \<Rightarrow> string" where
  "Ext path = ExtLoop (rev path) []"

text \<open>The elements of a path: the pieces between separators, empty ones included.\<close>

fun splitSep :: "string \<Rightarrow> string list" where
  "splitSep [] = [] # []"
| "splitSep (c # s) =
     (if c = CHR ''/'' then [] # splitSep s
      else (case splitSep s of e # es \<Rightarrow> (c # e) # es | [] \<Rightarrow> [c] # []))"

fun joinSep :: "string list \<Rightarrow> string" where
  "joinSep [] = []"
| "joinSep [e] = e"
| "joinSep (e # es) = e @ CHR ''/'' # joinSep es"

text \<open>
  \<open>filepath.Clean\<close> processes the elements from left to right into a buffer. The state
  of \<open>cleanStep\<close> is the number of leading \<open>..\<close> elements written (none when the path is
  rooted) and the elements written after them, last one first. An empty element and
  \<open>.\<close> are dropped; \<open>..\<close> removes the element before it when there is one, is dropped
  at the root, and is kept otherwise.
\<close>

fun cleanStep :: "bool \<Rightarrow> nat \<times> string list \<Rightarrow> string \<Rightarrow> nat \<times> string list" where
  "cleanStep rooted (dd, st) e =
     (if e = [] \<or> e = ''.'' then (dd, st)
      else if e = ''..'' then
        (case st of _ # st' \<Rightarrow> (dd, st')
         | [] \<Rightarrow> if rooted then (dd, st) else (Suc dd, st))
      else (dd, e # st))"

definition Clean :: "string \<Rightarrow> string" where
  "Clean path =
     (if path = [] then ''.''
      else
        let rooted = (hd path = CHR ''/'');
            (dd, st) = foldl (cleanStep rooted) (0, []) (splitSep path);
            body = joinSep (replicate dd ''..'' @ rev st);
            out = (if rooted then CHR ''/'' # body else body)
        in if out = [] then ''.'' else out)"

text \<open>\<open>filepath.Join\<close> of two elements: empty elements are ignored, the rest is cleaned.\<close>

definition Join :: "string \<Rightarrow> string \<Rightarrow> string" where
  "Join a b =
     (if a \<noteq> [] then Clean (a @ CHR ''/'' # b)
      else if b \<noteq> [] then Clean b
      else [])"

text \<open>\<open>filepath.Dir\<close>: the path up to and including its last separator, cleaned.\<close>

definition Dir :: "string \<Rightarrow> string" where
  "Dir path = Clean (rev (dropWhile (\<lambda>c. c \<noteq> CHR ''/'') (rev path)))"

subsection \<open>The file system as \<open>filepath.Walk\<close> reads it\<close>

text \<open>
  \<open>os.Lstat\<close> yields a \<open>FileInfo\<close> or fails; the program reads \<open>IsDir\<close> and \<open>Size\<close> of
  it (\<open>Size\<close> is an \<open>int64\<close>). A directory is listed by \<open>readDirNames\<close>, which yields
  the names in sorted order or fails.
\<close>

record FileInfo =
  IsDir :: bool
  Size :: "64 word"

text \<open>
  A node is what \<open>Lstat\<close> found at a path: a non-directory entry with its size, a
  directory with its listing in the order \<open>readDirNames\<close> returns it, each name with
  the result of \<open>Lstat\<close> on it (\<open>Inl\<close> when it fails), or a directory whose listing
  fails with an error message.
\<close>

datatype fsnode =
  File "64 word"
| Directory "(string \<times> (string + fsnode)) list"
| Unreadable string

fun info_of :: "fsnode \<Rightarrow> FileInfo" where
  "info_of (File sz) = \<lparr>IsDir = False, Size = sz\<rparr>"
| "info_of (Directory es) = \<lparr>IsDir = True, Size = 0\<rparr>"
| "info_of (Unreadable e) = \<lparr>IsDir = True, Size = 0\<rparr>"

text \<open>
  Go errors. \<open>SkipDir\<close> and \<open>SkipAll\<close> are the sentinels of \<open>path/filepath\<close>;
  \<open>PathError\<close> is a failure of the operating system with its message.
  \<open>NilDereference\<close> stands for the panic of calling a method on a nil \<open>FileInfo\<close>.
\<close>

datatype error = SkipDir | SkipAll | PathError string | NilDereference

text \<open>
  \<open>walk\<close> of \<open>path/filepath\<close>, for a callback that threads a state. A non-directory is
  handed to the callback. A directory is listed first; the callback gets the listing's
  error, if any, and whatever it returns then ends the walk of this directory. Otherwise
  the entries are walked in order: an entry whose \<open>Lstat\<close> fails is handed to the
  callback with the error; an error from an entry ends the loop unless it is \<open>SkipDir\<close>
  from a directory (or from the callback at a failed \<open>Lstat\<close>).
\<close>

type_synonym 's WalkFunc =
  "string \<Rightarrow> FileInfo option \<Rightarrow> error option \<Rightarrow> 's \<Rightarrow> error option \<times> 's"

function walk :: "'s WalkFunc \<Rightarrow> string \<Rightarrow> fsnode \<Rightarrow> 's \<Rightarrow> error option \<times> 's"
  and walk_entries ::
    "'s WalkFunc \<Rightarrow> string \<Rightarrow> (string \<times> (string + fsnode)) list \<Rightarrow> 's \<Rightarrow> error option \<times> 's"
where
  "walk fn path (File sz) st = fn path (Some (info_of (File sz))) None st"
| "walk fn path (Unreadable e) st =
     fn path (Some (info_of (Unreadable e))) (Some (PathError e)) st"
| "walk fn path (Directory es) st =
     (case fn path (Some (info_of (Directory es))) None st of
        (Some err1, st') \<Rightarrow> (Some err1, st')
      | (None, st') \<Rightarrow> walk_entries fn path es st')"
| "walk_entries fn path [] st = (None, st)"
| "walk_entries fn path ((name, Inl e) # rest) st =
     (case fn (Join path name) None (Some (PathError e)) st of
        (Some err, st') \<Rightarrow>
          if err \<noteq> SkipDir then (Some err, st') else walk_entries fn path rest st'
      | (None, st') \<Rightarrow> walk_entries fn path rest st')"
| "walk_entries fn path ((name, Inr node) # rest) st =
     (case walk fn (Join path name) node st of
        (Some err, st') \<Rightarrow>
          if \<not> IsDir (info_of node) \<or> err \<noteq> SkipDir then (Some err, st')
          else walk_entries fn path rest st'
      | (None, st') \<Rightarrow> walk_entries fn path rest st')"
  by pat_completeness auto

termination
  by (relation "measure (\<lambda>x. case x of
        Inl (fn, path, node, st) \<Rightarrow> size node
      | Inr (fn, path, es, st) \<Rightarrow>
          size_list (size_prod (\<lambda>_. 0) (size_sum (\<lambda>_. 0) size)) es)") auto

text \<open>
  \<open>filepath.Walk\<close>: \<open>Lstat\<close> of the root, then \<open>walk\<close>; \<open>SkipDir\<close> and \<open>SkipAll\<close> at the
  top are not errors.
\<close>

definition Walk :: "'s WalkFunc \<Rightarrow> string \<Rightarrow> string + fsnode \<Rightarrow> 's \<Rightarrow> error option \<times> 's" where
  "Walk fn root lst st =
     (case (case lst of
              Inl e \<Rightarrow> fn root None (Some (PathError e)) st
            | Inr node \<Rightarrow> walk fn root node st) of
        (err, st') \<Rightarrow>
          if err = Some SkipDir \<or> err = Some SkipAll then (None, st') else (err, st'))"

subsection \<open>The tables of the program\<close>

definition imageExtensions :: "string \<rightharpoonup> bool" where
  "imageExtensions = map_of
     [(''.jpg'', True), (''.jpeg'', True), (''.png'', True), (''.gif'', True),
      (''.bmp'', True), (''.tiff'', True), (''.svg'', True), (''.webp'', True),
      (''.heic'', True), (''.heif'', True), (''.raw'', True), (''.cr2'', True),
      (''.nef'', True), (''.orf'', True), (''.sr2'', True), (''.arw'', True),
      (''.dng'', True), (''.rw2'', True)]"

text \<open>Indexing a Go map of booleans: a missing key reads as \<open>false\<close>.\<close>

definition isImageExt :: "string \<Rightarrow> bool" where
  "isImageExt e = (case imageExtensions e of Some b \<Rightarrow> b | None \<Rightarrow> False)"

definition ignoreDirs :: "string list" where
  "ignoreDirs =
     [''Windows'', ''Program Files'', ''System Volume Information'', ''$Recycle.Bin'',
      ''Users'', ''SmartPSS'', ''Python312'', ''ProgramData'']"

subsection \<open>\<open>scanDirectory\<close>\<close>

text \<open>
  What the program writes to standard output, one constructor for each print statement
  with the values it formats (the text, its blank lines, and the formatting of the
  sizes as floating point numbers, are not modelled).
\<close>

datatype line =
  UsageLine
| ScanningLine string
| FileLine string "64 word"
| ErrorLine error
| TotalBytes "64 word"
| TotalKB "64 word"
| TotalMB "64 word"
| TotalGB "64 word"
| HeaderLine
| DirectoryLine string int
| AcceptedLine string

text \<open>
  The variables the callback closes over, and standard output. \<open>totalSize\<close> is an
  \<open>int64\<close>: addition wraps. The counts are Go \<open>int\<close>s, modelled as integers: a count is
  the number of entries seen in one directory, which is the length of a slice.
\<close>

record scan_state =
  totalSize :: "64 word"
  dirFileCount :: "string \<rightharpoonup> int"
  stdout :: "line list"

text \<open>Indexing a Go map of integers: a missing key reads as \<open>0\<close>.\<close>

definition countOf :: "(string \<rightharpoonup> int) \<Rightarrow> string \<Rightarrow> int" where
  "countOf m d = (case m d of Some c \<Rightarrow> c | None \<Rightarrow> 0)"

text \<open>\<open>dirFileCount[dir]++\<close>\<close>

definition increment :: "(string \<rightharpoonup> int) \<Rightarrow> string \<Rightarrow> (string \<rightharpoonup> int)" where
  "increment m d = m(d \<mapsto> countOf m d + 1)"

text \<open>The loop over \<open>ignoreDirs\<close> in the callback: does it return \<open>SkipDir\<close>?\<close>

fun ignoreLoop :: "string list \<Rightarrow> FileInfo \<Rightarrow> string \<Rightarrow> bool" where
  "ignoreLoop [] info path = False"
| "ignoreLoop (ignoreDir # rest) info path =
     (if IsDir info \<and> Contains path ignoreDir then True else ignoreLoop rest info path)"

text \<open>
  The callback handed to \<open>filepath.Walk\<close>. With a nil error and a nil \<open>FileInfo\<close> the
  first \<open>info.IsDir()\<close> would panic; \<open>walk\<close> never calls it so.
\<close>

definition walkFn :: "(string \<Rightarrow> string) \<Rightarrow> scan_state WalkFunc" where
  "walkFn unicodeLower path info err st =
     (case err of
        Some e \<Rightarrow> (Some e, st)
      | None \<Rightarrow>
          (case info of
             None \<Rightarrow> (Some NilDereference, st)
           | Some i \<Rightarrow>
               if ignoreLoop ignoreDirs i path then (Some SkipDir, st)
               else if \<not> IsDir i \<and> isImageExt (ToLower unicodeLower (Ext path)) then
                 (None,
                  st\<lparr>stdout := stdout st @ [FileLine path (Size i)],
                     totalSize := totalSize st + Size i,
                     dirFileCount := increment (dirFileCount st) (Dir path)\<rparr>)
               else (None, st)))"

text \<open>
  \<open>scanDirectory\<close> returns the total, the counts and the error, and in the model also
  the lines it printed. \<open>world\<close> is the file system: what \<open>Lstat\<close> finds at a path.
\<close>

definition scanDirectory ::
  "(string \<Rightarrow> string) \<Rightarrow> (string \<Rightarrow> string + fsnode) \<Rightarrow> string \<Rightarrow>
     64 word \<times> (string \<rightharpoonup> int) \<times> error option \<times> line list" where
  "scanDirectory unicodeLower world root =
     (case Walk (walkFn unicodeLower) root (world root)
             \<lparr>totalSize = 0, dirFileCount = Map.empty, stdout = []\<rparr> of
        (err, st) \<Rightarrow> (totalSize st, dirFileCount st, err, stdout st))"

subsection \<open>\<open>printDirectoryFileCounts\<close> and \<open>main\<close>\<close>

record dirCount =
  path :: string
  count :: int

text \<open>
  \<open>insertionSort\<close> of package \<open>sort\<close>, which \<open>sort.Slice\<close> runs on a slice of at most
  twelve elements: each element moves left past the elements it is less than.
  \<open>siftLeft\<close> takes the sorted part last element first.
\<close>

fun siftLeft :: "('a \<Rightarrow> 'a \<Rightarrow> bool) \<Rightarrow> 'a \<Rightarrow> 'a list \<Rightarrow> 'a list" where
  "siftLeft lt x [] = [x]"
| "siftLeft lt x (y # ys) = (if lt x y then y # siftLeft lt x ys else x # y # ys)"

definition insertionSort :: "('a \<Rightarrow> 'a \<Rightarrow> bool) \<Rightarrow> 'a list \<Rightarrow> 'a list" where
  "insertionSort lt xs = rev (foldl (\<lambda>sorted_part x. siftLeft lt x sorted_part) [] xs)"

text \<open>
  What \<open>sort.Slice\<close> promises of its result \<open>ys\<close> on the slice \<open>xs\<close>: the same elements,
  and no element less than one before it. Which of the orders with that property it
  produces is not specified (the sort is not stable).
\<close>

definition sortSlice_post :: "('a \<Rightarrow> 'a \<Rightarrow> bool) \<Rightarrow> 'a list \<Rightarrow> 'a list \<Rightarrow> bool" where
  "sortSlice_post lt xs ys = (mset ys = mset xs \<and> sorted_wrt (\<lambda>a b. \<not> lt b a) ys)"

text \<open>The comparison handed to \<open>sort.Slice\<close>.\<close>

definition byCount :: "dirCount \<Rightarrow> dirCount \<Rightarrow> bool" where
  "byCount a b = (count a > count b)"

text \<open>
  \<open>printDirectoryFileCounts\<close>. The order in which \<open>range\<close> yields the keys of the map,
  \<open>keys\<close>, and the sorting function, \<open>sortSlice\<close>, are parameters: Go fixes neither.
  \<open>collectDirs\<close> is the first loop, which copies the map into a slice. The result is
  the accepted directories and the lines printed.
\<close>

definition collectDirs :: "string list \<Rightarrow> (string \<rightharpoonup> int) \<Rightarrow> dirCount list" where
  "collectDirs keys m = map (\<lambda>d. \<lparr>path = d, count = countOf m d\<rparr>) keys"

definition printDirectoryFileCounts ::
  "((dirCount \<Rightarrow> dirCount \<Rightarrow> bool) \<Rightarrow> dirCount list \<Rightarrow> dirCount list) \<Rightarrow> string list \<Rightarrow>
     (string \<rightharpoonup> int) \<Rightarrow> string list \<times> line list" where
  "printDirectoryFileCounts sortSlice keys m =
     (let sortedDirs = sortSlice byCount (collectDirs keys m);
          shown = filter (\<lambda>dc. count dc > 5) sortedDirs
      in (map path shown,
          HeaderLine # map (\<lambda>dc. DirectoryLine (path dc) (count dc)) shown))"

text \<open>
  \<open>main\<close>, as a function from the arguments (\<open>os.Args\<close>, the program's name first) and
  the file system to the lines printed. \<open>rangeOrder\<close> is the order in which \<open>range\<close>
  yields the keys of a map.
\<close>

definition main ::
  "(string \<Rightarrow> string) \<Rightarrow> ((dirCount \<Rightarrow> dirCount \<Rightarrow> bool) \<Rightarrow> dirCount list \<Rightarrow> dirCount list) \<Rightarrow>
     ((string \<rightharpoonup> int) \<Rightarrow> string list) \<Rightarrow> (string \<Rightarrow> string + fsnode) \<Rightarrow> string list \<Rightarrow>
     line list" where
  "main unicodeLower sortSlice rangeOrder world args =
     (if length args < 2 then [UsageLine]
      else
        let root = args ! 1 in
        (case scanDirectory unicodeLower world root of
           (sz, counts, err, printed) \<Rightarrow>
             (case err of
                Some e \<Rightarrow> ScanningLine root # printed @ [ErrorLine e]
              | None \<Rightarrow>
                  (case printDirectoryFileCounts sortSlice (rangeOrder counts) counts of
                     (acceptedDirs, report) \<Rightarrow>
                       ScanningLine root # printed
                       @ [TotalBytes sz, TotalKB sz, TotalMB sz, TotalGB sz]
                       @ report @ map AcceptedLine acceptedDirs))))"

section \<open>Notions for the specification\<close>

subsection \<open>Ignored paths, image paths, and the files of a tree\<close>

text \<open>A path matches the ignore list when it contains one of its entries.\<close>

definition ignored :: "string \<Rightarrow> bool" where
  "ignored p = list_ex (Contains p) ignoreDirs"

text \<open>The test the callback applies to the path of a non-directory entry.\<close>

definition isImage :: "(string \<Rightarrow> string) \<Rightarrow> string \<Rightarrow> bool" where
  "isImage unicodeLower p = isImageExt (ToLower unicodeLower (Ext p))"

text \<open>
  Every non-directory entry of a tree whose root has path \<open>p\<close>: the paths of the
  directories it lies under, outermost first, its own path, and its size. The paths are
  those \<open>walk\<close> builds, with \<open>Join\<close>. Nothing is known beneath an entry that cannot be
  read.
\<close>

function all_files :: "string \<Rightarrow> fsnode \<Rightarrow> (string list \<times> string \<times> 64 word) list"
  and all_files_entries ::
    "string \<Rightarrow> (string \<times> (string + fsnode)) list \<Rightarrow> (string list \<times> string \<times> 64 word) list"
where
  "all_files p (File sz) = [([], p, sz)]"
| "all_files p (Unreadable e) = []"
| "all_files p (Directory es) = map (\<lambda>(ds, q, sz). (p # ds, q, sz)) (all_files_entries p es)"
| "all_files_entries p [] = []"
| "all_files_entries p ((n, Inl e) # rest) = all_files_entries p rest"
| "all_files_entries p ((n, Inr c) # rest) = all_files (Join p n) c @ all_files_entries p rest"
  by pat_completeness auto

termination
  by (relation "measure (\<lambda>x. case x of
        Inl (p, node) \<Rightarrow> size node
      | Inr (p, es) \<Rightarrow> size_list (size_prod (\<lambda>_. 0) (size_sum (\<lambda>_. 0) size)) es)") auto

text \<open>
  The files that count: those under no directory whose path matches the ignore list,
  and whose extension is a known image extension. Each with its size.
\<close>

definition counted ::
  "(string \<Rightarrow> string) \<Rightarrow> (string list \<times> string \<times> 64 word) list \<Rightarrow> (string \<times> 64 word) list" where
  "counted ul fs = map snd (filter (\<lambda>(ds, q, sz). \<not> list_ex ignored ds \<and> isImage ul q) fs)"

definition counted_files :: "(string \<Rightarrow> string) \<Rightarrow> string \<Rightarrow> fsnode \<Rightarrow> (string \<times> 64 word) list" where
  "counted_files ul root node = counted ul (all_files root node)"

text \<open>
  The tree with every directory whose path matches the ignore list emptied, and the
  file system with every tree so pruned.
\<close>

function prune :: "string \<Rightarrow> fsnode \<Rightarrow> fsnode"
  and prune_entries ::
    "string \<Rightarrow> (string \<times> (string + fsnode)) list \<Rightarrow> (string \<times> (string + fsnode)) list"
where
  "prune p (File sz) = File sz"
| "prune p (Unreadable e) = Unreadable e"
| "prune p (Directory es) = (if ignored p then Directory [] else Directory (prune_entries p es))"
| "prune_entries p [] = []"
| "prune_entries p ((n, Inl e) # rest) = (n, Inl e) # prune_entries p rest"
| "prune_entries p ((n, Inr c) # rest) = (n, Inr (prune (Join p n) c)) # prune_entries p rest"
  by pat_completeness auto

termination
  by (relation "measure (\<lambda>x. case x of
        Inl (p, node) \<Rightarrow> size node
      | Inr (p, es) \<Rightarrow> size_list (size_prod (\<lambda>_. 0) (size_sum (\<lambda>_. 0) size)) es)") auto

definition prune_world :: "(string \<Rightarrow> string + fsnode) \<Rightarrow> string \<Rightarrow> string + fsnode" where
  "prune_world world p = (case world p of Inl e \<Rightarrow> Inl e | Inr node \<Rightarrow> Inr (prune p node))"

subsection \<open>The entries a traversal reads\<close>

text \<open>
  A visit is one call of the callback: the path, the \<open>FileInfo\<close> and the error.
  \<open>visits p node\<close> are the calls, in order, of a traversal that no error stops: every
  entry of the tree but those beneath a directory whose path matches the ignore list.
  A visit has failed when it carries an error.
\<close>

type_synonym visit = "string \<times> FileInfo option \<times> error option"

function visits :: "string \<Rightarrow> fsnode \<Rightarrow> visit list"
  and visits_entries :: "string \<Rightarrow> (string \<times> (string + fsnode)) list \<Rightarrow> visit list"
where
  "visits p (File sz) = [(p, Some (info_of (File sz)), None)]"
| "visits p (Unreadable e) = [(p, Some (info_of (Unreadable e)), Some (PathError e))]"
| "visits p (Directory es) =
     (p, Some (info_of (Directory es)), None) # (if ignored p then [] else visits_entries p es)"
| "visits_entries p [] = []"
| "visits_entries p ((n, Inl e) # rest) =
     (Join p n, None, Some (PathError e)) # visits_entries p rest"
| "visits_entries p ((n, Inr c) # rest) = visits (Join p n) c @ visits_entries p rest"
  by pat_completeness auto

termination
  by (relation "measure (\<lambda>x. case x of
        Inl (p, node) \<Rightarrow> size node
      | Inr (p, es) \<Rightarrow> size_list (size_prod (\<lambda>_. 0) (size_sum (\<lambda>_. 0) size)) es)") auto

definition visits_root :: "string \<Rightarrow> string + fsnode \<Rightarrow> visit list" where
  "visits_root root lst =
     (case lst of Inl e \<Rightarrow> [(root, None, Some (PathError e))] | Inr node \<Rightarrow> visits root node)"

definition failed :: "visit \<Rightarrow> bool" where
  "failed v = (snd (snd v) \<noteq> None)"

text \<open>
  The visits \<open>walk\<close> makes have a \<open>FileInfo\<close> unless they carry an error, and the
  error is one of the operating system.
\<close>

definition wellformed :: "visit \<Rightarrow> bool" where
  "wellformed v = (case v of (p, i, e) \<Rightarrow>
      (case e of Some err \<Rightarrow> (\<exists>msg. err = PathError msg) | None \<Rightarrow> i \<noteq> None))"

text \<open>The image files among some visits, and the state after the callback recorded files.\<close>

fun matches :: "(string \<Rightarrow> string) \<Rightarrow> visit list \<Rightarrow> (string \<times> 64 word) list" where
  "matches ul [] = []"
| "matches ul ((p, Some i, None) # vs) =
     (if \<not> IsDir i \<and> isImage ul p then (p, Size i) # matches ul vs else matches ul vs)"
| "matches ul (v # vs) = matches ul vs"

definition record_files :: "scan_state \<Rightarrow> (string \<times> 64 word) list \<Rightarrow> scan_state" where
  "record_files st fs =
     st\<lparr>stdout := stdout st @ map (\<lambda>(p, sz). FileLine p sz) fs,
        totalSize := totalSize st + sum_list (map snd fs),
        dirFileCount := foldl increment (dirFileCount st) (map (\<lambda>(p, sz). Dir p) fs)\<rparr>"

definition start :: scan_state where
  "start = \<lparr>totalSize = 0, dirFileCount = Map.empty, stdout = []\<rparr>"

text \<open>
  The callback applied to a list of visits in turn, until it returns an error other
  than \<open>SkipDir\<close>.
\<close>

fun run :: "(string \<Rightarrow> string) \<Rightarrow> visit list \<Rightarrow> scan_state \<Rightarrow> error option \<times> scan_state" where
  "run ul [] st = (None, st)"
| "run ul ((p, i, e) # vs) st =
     (case walkFn ul p i e st of
        (None, st') \<Rightarrow> run ul vs st'
      | (Some err, st') \<Rightarrow> if err = SkipDir then run ul vs st' else (Some err, st'))"

fun is_Directory :: "fsnode \<Rightarrow> bool" where
  "is_Directory (Directory es) = True"
| "is_Directory _ = False"

subsection \<open>Extensions and printed lines\<close>

text \<open>The last element of a path, and equality of strings up to the case of ASCII letters.\<close>

definition lastElement :: "string \<Rightarrow> string" where
  "lastElement p = rev (takeWhile (\<lambda>c. c \<noteq> CHR ''/'') (rev p))"

definition equalFoldASCII :: "string \<Rightarrow> string \<Rightarrow> bool" where
  "equalFoldASCII a b = (map lowerASCII a = map lowerASCII b)"

text \<open>The directory a printed file line counts for.\<close>

fun lineDir :: "line \<Rightarrow> string option" where
  "lineDir (FileLine q s) = Some (Dir q)"
| "lineDir _ = None"

subsection \<open>Example file systems\<close>

text \<open>
  A directory \<open>root\<close> with \<open>a.JPG\<close> (10 bytes), \<open>b.txt\<close> (5 bytes) and \<open>sub/c.png\<close>
  (20 bytes); nothing else exists.
\<close>

definition photos :: fsnode where
  "photos = Directory
     [(''a.JPG'', Inr (File 10)), (''b.txt'', Inr (File 5)),
      (''sub'', Inr (Directory [(''c.png'', Inr (File 20))]))]"

definition photos_world :: "string \<Rightarrow> string + fsnode" where
  "photos_world p = (if p = ''root'' then Inr photos else Inl ''no such file or directory'')"

text \<open>
  A directory \<open>backup\<close> with an image in each of \<open>MyUsers_old\<close>, \<open>Users\<close> and \<open>users\<close>,
  and one of its own.
\<close>

definition backup :: fsnode where
  "backup = Directory
     [(''MyUsers_old'', Inr (Directory [(''x.gif'', Inr (File 4))])),
      (''Users'', Inr (Directory [(''pic.jpg'', Inr (File 7))])),
      (''ok.png'', Inr (File 3)),
      (''users'', Inr (Directory [(''pic2.jpg'', Inr (File 9))]))]"

definition backup_world :: "string \<Rightarrow> string + fsnode" where
  "backup_world p = (if p = ''backup'' then Inr backup else Inl ''no such file or directory'')"

text \<open>A directory \<open>media\<close> with two images and, between them, a directory that cannot be listed.\<close>

definition locked :: fsnode where
  "locked = Directory
     [(''a.jpg'', Inr (File 4)), (''private'', Inr (Unreadable ''permission denied'')),
      (''z.png'', Inr (File 8))]"

definition locked_world :: "string \<Rightarrow> string + fsnode" where
  "locked_world p = (if p = ''media'' then Inr locked else Inl ''no such file or directory'')"


text \<open>
  \<open>albums\<close>: directories with six, seven and five images. \<open>twins\<close>: two directories
  with six images each.
\<close>

definition sixImages :: "(string \<times> (string + fsnode)) list" where
  "sixImages = map (\<lambda>n. (n, Inr (File 1)))
     [''1.jpg'', ''2.jpg'', ''3.jpg'', ''4.jpg'', ''5.jpg'', ''6.jpg'']"

definition albums :: fsnode where
  "albums = Directory
     [(''a'', Inr (Directory sixImages)),
      (''b'', Inr (Directory ((''0.jpg'', Inr (File 1)) # sixImages))),
      (''c'', Inr (Directory (take 5 sixImages)))]"

definition twins :: fsnode where
  "twins = Directory [(''a'', Inr (Directory sixImages)), (''b'', Inr (Directory sixImages))]"

definition albums_world :: "string \<Rightarrow> string + fsnode" where
  "albums_world p =
     (if p = ''albums'' then Inr albums else if p = ''twins'' then Inr twins
      else Inl ''no such file or directory'')"

definition albums_counts :: "string \<rightharpoonup> int" where
  "albums_counts = fst (snd (scanDirectory id albums_world ''albums''))"

definition twins_counts :: "string \<rightharpoonup> int" where
  "twins_counts = fst (snd (scanDirectory id albums_world ''twins''))"

text \<open>Counts of six, five and nine.\<close>

definition shelf_counts :: "string \<rightharpoonup> int" where
  "shelf_counts = [''a'' \<mapsto> 6, ''b'' \<mapsto> 5, ''c'' \<mapsto> 9]"

section \<open>The traversal as a sequence of calls of the callback\<close>

text \<open>
  The callback decides by the path and the \<open>FileInfo\<close> alone whether a directory is
  skipped, so the calls \<open>walk\<close> makes are the visits of the tree, up to the first that
  fails: \<open>walk\<close> with the callback is \<open>run\<close> on the visits (\<open>walk_run\<close>,
  \<open>Walk_run\<close>). What \<open>run\<close> does to the state is to record the image files among
  the visits it gets through.
\<close>

lemma ignoreLoop_eq: "ignoreLoop ds i p = (IsDir i \<and> list_ex (Contains p) ds)"
  by (induction ds) auto

lemma record_files_Nil: "record_files st [] = st"
  by (simp add: record_files_def)

lemma record_files_append:
  "record_files (record_files st a) b = record_files st (a @ b)"
  by (simp add: record_files_def add.assoc)

lemma matches_append: "matches ul (a @ b) = matches ul a @ matches ul b"
  by (induction ul a rule: matches.induct) auto

text \<open>One call of the callback.\<close>

lemma walkFn_cases:
  "walkFn ul p i e st =
     (case e of Some err \<Rightarrow> (Some err, st)
      | None \<Rightarrow> (case i of None \<Rightarrow> (Some NilDereference, st)
          | Some fi \<Rightarrow> if IsDir fi \<and> ignored p then (Some SkipDir, st)
                        else (None, record_files st (matches ul [(p, i, e)]))))"
  by (auto simp: walkFn_def ignoreLoop_eq ignored_def isImage_def record_files_def
      split: option.splits)

lemma run_append:
  "run ul (a @ b) st =
     (case run ul a st of (None, st') \<Rightarrow> run ul b st' | (Some err, st') \<Rightarrow> (Some err, st'))"
  by (induction a arbitrary: st) (auto split: prod.splits option.splits)

lemma run_no_SkipDir: "fst (run ul vs st) \<noteq> Some SkipDir"
  by (induction vs arbitrary: st) (auto split: prod.splits option.splits if_splits)

lemma run_ok:
  "\<forall>v\<in>set vs. wellformed v \<and> \<not> failed v \<Longrightarrow>
     run ul vs st = (None, record_files st (matches ul vs))"
proof (induction vs arbitrary: st)
  case Nil
  then show ?case by (simp add: record_files_Nil)
next
  case (Cons v vs)
  obtain p i e where v: "v = (p, i, e)" by (cases v)
  from Cons.prems have e: "e = None" and i: "i \<noteq> None"
    by (auto simp: v wellformed_def failed_def split: option.splits)
  then obtain fi where fi: "i = Some fi" by auto
  have rest: "\<forall>v\<in>set vs. wellformed v \<and> \<not> failed v" using Cons.prems by simp
  show ?case
  proof (cases "IsDir fi \<and> ignored p")
    case True
    then have "walkFn ul p i e st = (Some SkipDir, st)"
      by (simp add: walkFn_cases e fi)
    moreover have "matches ul (v # vs) = matches ul vs"
      using True by (simp add: v e fi)
    ultimately show ?thesis
      using Cons.IH [OF rest, of st] by (simp add: v)
  next
    case False
    then have "walkFn ul p i e st = (None, record_files st (matches ul [v]))"
      by (simp add: walkFn_cases e fi v)
    moreover have "matches ul (v # vs) = matches ul [v] @ matches ul vs"
      using matches_append [of ul "[v]" vs] by simp
    ultimately show ?thesis
      using Cons.IH [OF rest, of "record_files st (matches ul [v])"]
      by (simp add: v record_files_append)
  qed
qed

lemma run_err:
  assumes "\<forall>v\<in>set pre. wellformed v \<and> \<not> failed v"
  shows "run ul (pre @ (q, i, Some (PathError msg)) # post) st =
           (Some (PathError msg), record_files st (matches ul pre))"
  by (simp add: run_append run_ok [OF assms] walkFn_cases)

lemma run_prefix:
  "\<exists>k. snd (run ul vs st) = record_files st (matches ul (take k vs))"
proof (induction vs arbitrary: st)
  case Nil
  then show ?case by (simp add: record_files_Nil)
next
  case (Cons v vs)
  obtain p i e where v: "v = (p, i, e)" by (cases v)
  obtain r st1 where w: "walkFn ul p i e st = (r, st1)" by (cases "walkFn ul p i e st")
  show ?case
  proof (cases "r = None \<or> r = Some SkipDir")
    case True
    then have st1: "st1 = record_files st (matches ul [v])"
      using w by (auto simp: walkFn_cases v record_files_Nil split: option.splits if_splits)
    from Cons.IH [of st1] obtain k where
      k: "snd (run ul vs st1) = record_files st1 (matches ul (take k vs))" by blast
    have "snd (run ul (v # vs) st) = snd (run ul vs st1)"
      using True w by (auto simp: v)
    also have "\<dots> = record_files st (matches ul [v] @ matches ul (take k vs))"
      unfolding k unfolding st1 record_files_append ..
    also have "matches ul [v] @ matches ul (take k vs) = matches ul (take (Suc k) (v # vs))"
      using matches_append [of ul "[v]" "take k vs"] by simp
    finally show ?thesis by blast
  next
    case False
    then have "st1 = st"
      using w by (auto simp: walkFn_cases v split: option.splits if_splits)
    then have "snd (run ul (v # vs) st) = record_files st (matches ul (take 0 (v # vs)))"
      using False w by (cases r) (auto simp: v record_files_Nil)
    then show ?thesis by blast
  qed
qed

lemma visits_wellformed:
  "\<forall>v\<in>set (visits p node). wellformed v"
  "\<forall>v\<in>set (visits_entries p es). wellformed v"
  by (induction p node and p es rule: visits_visits_entries.induct)
     (auto simp: wellformed_def)

text \<open>The walk and the visits.\<close>

lemma walk_run:
  "walk (walkFn ul) p node st =
     (if is_Directory node \<and> ignored p then (Some SkipDir, st) else run ul (visits p node) st)"
  "walk_entries (walkFn ul) p es st = run ul (visits_entries p es) st"
proof (induction "walkFn ul" p node st and "walkFn ul" p es st rule: walk_walk_entries.induct)
  case (1 path sz st)
  then show ?case by (simp add: walkFn_cases)
next
  case (2 path e st)
  then show ?case by (simp add: walkFn_cases)
next
  case (3 path es st)
  then show ?case by (auto simp: walkFn_cases record_files_Nil)
next
  case (4 path st)
  then show ?case by simp
next
  case (5 path name e rest st)
  then show ?case by (simp add: walkFn_cases)
next
  case (6 path name node rest st)
  show ?case
  proof (cases "is_Directory node \<and> ignored (Join path name)")
    case True
    then obtain es where node: "node = Directory es" by (cases node) auto
    have w: "walk (walkFn ul) (Join path name) node st = (Some SkipDir, st)"
      using 6(1) True by simp
    have "walk_entries (walkFn ul) path rest st = run ul (visits_entries path rest) st"
      using 6(3) [OF w [symmetric] refl] node by simp
    then show ?thesis
      using True by (simp add: w node run_append walkFn_cases)
  next
    case False
    have w: "walk (walkFn ul) (Join path name) node st = run ul (visits (Join path name) node) st"
      using 6(1) False by simp
    obtain r st1 where r: "run ul (visits (Join path name) node) st = (r, st1)"
      by (cases "run ul (visits (Join path name) node) st")
    have ns: "r \<noteq> Some SkipDir" using run_no_SkipDir [of ul "visits (Join path name) node" st] r by simp
    show ?thesis
    proof (cases r)
      case None
      have "walk_entries (walkFn ul) path rest st1 = run ul (visits_entries path rest) st1"
        using 6(2) [of r st1] w r None by simp
      then show ?thesis using w r None by (simp add: run_append)
    next
      case (Some err)
      then show ?thesis using w r ns by (simp add: run_append)
    qed
  qed
qed

lemma visits_root_wellformed: "\<forall>v\<in>set (visits_root root lst). wellformed v"
  using visits_wellformed(1) by (auto simp: visits_root_def wellformed_def split: sum.splits)

lemma run_error_PathError:
  "\<forall>v\<in>set vs. wellformed v \<Longrightarrow> run ul vs st = (Some err, st') \<Longrightarrow> \<exists>msg. err = PathError msg"
proof (induction vs arbitrary: st)
  case Nil
  then show ?case by simp
next
  case (Cons v vs)
  obtain p i e where v: "v = (p, i, e)" by (cases v)
  show ?case
    using Cons.prems Cons.IH
    by (auto simp: v walkFn_cases wellformed_def split: option.splits if_splits)
qed

lemma run_ignored_Directory:
  "is_Directory node \<Longrightarrow> ignored p \<Longrightarrow> run ul (visits p node) st = (None, st)"
  by (cases node) (simp_all add: walkFn_cases)

lemma Walk_run: "Walk (walkFn ul) root lst st = run ul (visits_root root lst) st"
proof (cases lst)
  case (Inl e)
  then show ?thesis by (simp add: Walk_def visits_root_def walkFn_cases)
next
  case (Inr node)
  obtain r st' where r: "run ul (visits root node) st = (r, st')"
    by (cases "run ul (visits root node) st")
  have "r \<noteq> Some SkipDir" using run_no_SkipDir [of ul "visits root node" st] r by simp
  moreover have "r \<noteq> Some SkipAll"
    using run_error_PathError [OF visits_wellformed(1), where ul = ul and st = st] r by auto
  ultimately show ?thesis
    using r run_ignored_Directory [of node root ul st]
    by (auto simp: Walk_def visits_root_def Inr walk_run)
qed

lemma scanDirectory_run:
  "scanDirectory ul world root =
     (case run ul (visits_root root (world root)) start of
        (err, st) \<Rightarrow> (totalSize st, dirFileCount st, err, stdout st))"
  by (simp add: scanDirectory_def Walk_run start_def)

text \<open>The image files among the visits are the counted files of the tree.\<close>

lemma counted_push:
  "counted ul (map (\<lambda>(ds, y). (p # ds, y)) fs) = (if ignored p then [] else counted ul fs)"
  by (induction fs) (auto simp: counted_def)

lemma counted_append: "counted ul (a @ b) = counted ul a @ counted ul b"
  by (simp add: counted_def)

lemma matches_visits:
  "matches ul (visits p node) = counted ul (all_files p node)"
  "matches ul (visits_entries p es) = counted ul (all_files_entries p es)"
proof (induction p node and p es rule: visits_visits_entries.induct)
  case (1 p sz)
  then show ?case by (simp add: counted_def)
next
  case (2 p e)
  then show ?case by (simp add: counted_def)
next
  case (3 p es)
  then show ?case by (simp add: counted_push)
next
  case (4 p)
  then show ?case by (simp add: counted_def)
next
  case (5 p n e rest)
  then show ?case by simp
next
  case (6 p n c rest)
  then show ?case by (simp add: matches_append counted_append)
qed

lemma matches_visits_root:
  "matches ul (visits_root root (Inr node)) = counted_files ul root node"
  "matches ul (visits_root root (Inl e)) = []"
  by (simp_all add: visits_root_def matches_visits counted_files_def)

lemma countOf_increment:
  "countOf (increment m d) D = (if D = d then countOf m D + 1 else countOf m D)"
  by (simp add: increment_def countOf_def)

lemma countOf_foldl_increment:
  "countOf (foldl increment m ds) D = countOf m D + int (length (filter (\<lambda>d. d = D) ds))"
  by (induction ds arbitrary: m) (auto simp: countOf_increment)

lemma dom_foldl_increment: "dom (foldl increment m ds) = dom m \<union> set ds"
  by (induction ds arbitrary: m) (auto simp: increment_def)

lemma filter_Dir_map:
  "length (filter (\<lambda>d. d = D) (map (\<lambda>(p, sz). Dir p) fs)) = length (filter (\<lambda>(p, sz). Dir p = D) fs)"
  by (induction fs) auto

lemma sint_sum_list:
  fixes ws :: "64 word list"
  assumes "- (2 ^ 63) \<le> sum_list (map sint ws)" "sum_list (map sint ws) < 2 ^ 63"
  shows "sint (sum_list ws) = sum_list (map sint ws)"
proof -
  have "sum_list ws = (word_of_int (sum_list (map sint ws)) :: 64 word)"
    by (induction ws) simp_all
  then show ?thesis
    using assms by (simp add: sint_sbintrunc' signed_take_bit_int_eq_self)
qed

text \<open>Every scan, whatever its outcome.\<close>

lemma scan_prefix:
  assumes "scanDirectory ul world root = (sz, m, err, out)"
  shows "\<exists>fs. prefix fs (matches ul (visits_root root (world root)))
            \<and> out = map (\<lambda>(p, s). FileLine p s) fs
            \<and> sz = sum_list (map snd fs)
            \<and> m = foldl increment Map.empty (map (\<lambda>(p, s). Dir p) fs)"
proof -
  let ?vs = "visits_root root (world root)"
  obtain k where k: "snd (run ul ?vs start) = record_files start (matches ul (take k ?vs))"
    using run_prefix by blast
  have "prefix (matches ul (take k ?vs)) (matches ul ?vs)"
    using matches_append [of ul "take k ?vs" "drop k ?vs"] by (simp add: prefix_def)
  moreover have "out = map (\<lambda>(p, s). FileLine p s) (matches ul (take k ?vs))"
    "sz = sum_list (map snd (matches ul (take k ?vs)))"
    "m = foldl increment Map.empty (map (\<lambda>(p, s). Dir p) (matches ul (take k ?vs)))"
    using assms k by (auto simp: scanDirectory_run record_files_def start_def split: prod.splits)
  ultimately show ?thesis by blast
qed

text \<open>A scan that returns no error has read every entry it visited.\<close>

lemma run_None:
  assumes wf: "\<forall>v\<in>set vs. wellformed v" and r: "run ul vs st = (None, st')"
  shows "\<forall>v\<in>set vs. \<not> failed v"
proof (rule ccontr)
  assume "\<not> (\<forall>v\<in>set vs. \<not> failed v)"
  then have "\<exists>v\<in>set vs. failed v" by blast
  then obtain pre v post where s: "vs = pre @ v # post" "failed v" "\<forall>u\<in>set pre. \<not> failed u"
    using split_list_first_prop [of vs failed] by blast
  obtain q i e where v: "v = (q, i, e)" by (cases v)
  have "wellformed v" using wf s(1) by simp
  then obtain msg where e: "e = Some (PathError msg)"
    using s(2) by (auto simp: v wellformed_def failed_def split: option.splits)
  have "\<forall>u\<in>set pre. wellformed u \<and> \<not> failed u" using wf s by simp
  from run_err [OF this, of ul q i msg post st] show False
    using r s(1) v e by simp
qed

lemma scan_ok:
  assumes "scanDirectory ul world root = (sz, m, None, out)" "world root = Inr node"
  shows "out = map (\<lambda>(p, s). FileLine p s) (counted_files ul root node)"
    "sz = sum_list (map snd (counted_files ul root node))"
    "m = foldl increment Map.empty (map (\<lambda>(p, s). Dir p) (counted_files ul root node))"
proof -
  let ?vs = "visits_root root (world root)"
  obtain st where r: "run ul ?vs start = (None, st)"
    and res: "sz = totalSize st" "m = dirFileCount st" "out = stdout st"
    using assms(1) by (auto simp: scanDirectory_run split: prod.splits)
  have nf: "\<forall>v\<in>set ?vs. wellformed v \<and> \<not> failed v"
    using run_None [OF visits_root_wellformed r] visits_root_wellformed by blast
  have "st = record_files start (counted_files ul root node)"
    using run_ok [OF nf, of ul start] r by (simp add: assms(2) matches_visits_root)
  then show "out = map (\<lambda>(p, s). FileLine p s) (counted_files ul root node)"
    "sz = sum_list (map snd (counted_files ul root node))"
    "m = foldl increment Map.empty (map (\<lambda>(p, s). Dir p) (counted_files ul root node))"
    using res by (simp_all add: record_files_def start_def)
qed

lemma scan_all_read:
  assumes "world root = Inr node" and "\<forall>v\<in>set (visits root node). \<not> failed v"
  shows "scanDirectory ul world root =
           (sum_list (map snd (counted_files ul root node)),
            foldl increment Map.empty (map (\<lambda>(p, s). Dir p) (counted_files ul root node)),
            None,
            map (\<lambda>(p, s). FileLine p s) (counted_files ul root node))"
proof -
  have "\<forall>v\<in>set (visits_root root (world root)). wellformed v \<and> \<not> failed v"
    using assms visits_root_wellformed [of root "world root"] by (simp add: visits_root_def)
  from run_ok [OF this, of ul start] show ?thesis
    by (simp add: scanDirectory_run assms(1) matches_visits_root record_files_def start_def)
qed

lemma countOf_empty: "countOf Map.empty D = 0"
  by (simp add: countOf_def)

lemma countOf_tally:
  "countOf (foldl increment Map.empty (map (\<lambda>(p, s). Dir p) fs)) D
     = int (length (filter (\<lambda>(p, s). Dir p = D) fs))"
  unfolding countOf_foldl_increment countOf_empty filter_Dir_map by simp

subsection \<open>Ignored directories\<close>

lemma visits_prune:
  "visits p (prune p node) = visits p node"
  "visits_entries p (prune_entries p es) = visits_entries p es"
  by (induction p node and p es rule: prune_prune_entries.induct) simp_all

lemma visits_root_prune:
  "visits_root root (prune_world world root) = visits_root root (world root)"
  by (simp add: visits_root_def prune_world_def visits_prune split: sum.splits)


subsection \<open>Extensions\<close>

lemma ExtLoop_Nil_iff:
  "ExtLoop r acc = [] \<longleftrightarrow> CHR ''.'' \<notin> set (takeWhile (\<lambda>c. c \<noteq> CHR ''/'') r)"
  by (induction r arbitrary: acc) auto

lemma Ext_Nil_iff: "Ext p = [] \<longleftrightarrow> CHR ''.'' \<notin> set (lastElement p)"
  by (simp add: Ext_def lastElement_def ExtLoop_Nil_iff)

lemma isImageExt_iff: "isImageExt e \<longleftrightarrow> e \<in> dom imageExtensions"
  by (auto simp: isImageExt_def imageExtensions_def split: option.splits if_splits)

lemma imageExtensions_lower: "k \<in> dom imageExtensions \<Longrightarrow> map lowerASCII k = k"
  by (auto simp: imageExtensions_def lowerASCII_def isUpperASCII_def split: if_splits)

lemma not_isImageExt_Nil: "\<not> isImageExt []"
  by (simp add: isImageExt_def imageExtensions_def)

subsection \<open>Sorting and the accepted directories\<close>

lemma mset_siftLeft: "mset (siftLeft lt x ys) = add_mset x (mset ys)"
  by (induction ys) auto

lemma set_siftLeft: "set (siftLeft lt x ys) = insert x (set ys)"
  by (induction ys) auto

lemma sorted_siftLeft:
  "sorted_wrt (\<lambda>a b. \<not> byCount a b) ys \<Longrightarrow>
     sorted_wrt (\<lambda>a b. \<not> byCount a b) (siftLeft byCount x ys)"
  by (induction ys) (auto simp: set_siftLeft byCount_def)

lemma foldl_siftLeft:
  "mset (foldl (\<lambda>s x. siftLeft byCount x s) acc xs) = mset acc + mset xs
   \<and> (sorted_wrt (\<lambda>a b. \<not> byCount a b) acc \<longrightarrow>
        sorted_wrt (\<lambda>a b. \<not> byCount a b) (foldl (\<lambda>s x. siftLeft byCount x s) acc xs))"
  by (induction xs arbitrary: acc) (auto simp: mset_siftLeft sorted_siftLeft)

text \<open>The insertion sort does what \<open>sort.Slice\<close> promises.\<close>

lemma insertionSort_post: "sortSlice_post byCount xs (insertionSort byCount xs)"
  using foldl_siftLeft [of "[]" xs]
  by (simp add: sortSlice_post_def insertionSort_def sorted_wrt_rev)

lemma path_collectDirs: "map path (collectDirs keys m) = keys"
  by (simp add: collectDirs_def comp_def)

lemma count_collectDirs: "dc \<in> set (collectDirs keys m) \<Longrightarrow> count dc = countOf m (path dc)"
  by (auto simp: collectDirs_def)

lemma accepted_facts:
  assumes post: "sortSlice_post byCount (collectDirs keys m) (sortSlice byCount (collectDirs keys m))"
  defines "acc \<equiv> fst (printDirectoryFileCounts sortSlice keys m)"
  shows "mset acc = mset (filter (\<lambda>d. 5 < countOf m d) keys)"
    and "sorted_wrt (\<lambda>a b. countOf m b \<le> countOf m a) acc"
    and "snd (printDirectoryFileCounts sortSlice keys m)
           = HeaderLine # map (\<lambda>d. DirectoryLine d (countOf m d)) acc"
proof -
  let ?xs = "collectDirs keys m"
  let ?ys = "sortSlice byCount ?xs"
  have ms: "mset ?ys = mset ?xs" and so: "sorted_wrt (\<lambda>a b. \<not> byCount b a) ?ys"
    using post by (simp_all add: sortSlice_post_def)
  have cnt: "count dc = countOf m (path dc)" if "dc \<in> set ?ys" for dc
    using that count_collectDirs [of dc keys m] mset_eq_setD [OF ms] by blast
  have acc: "acc = map path (filter (\<lambda>dc. 5 < count dc) ?ys)"
    by (simp add: acc_def printDirectoryFileCounts_def Let_def)
  have f: "filter (\<lambda>dc. 5 < count dc) ?ys = filter (\<lambda>dc. 5 < countOf m (path dc)) ?ys"
    using cnt by (auto intro: filter_cong)
  have "mset acc = mset (map path (filter (\<lambda>dc. 5 < countOf m (path dc)) ?ys))"
    by (simp add: acc f)
  also have "\<dots> = filter_mset (\<lambda>d. 5 < countOf m d) (image_mset path (mset ?ys))"
    by (simp add: filter_mset_image_mset comp_def)
  also have "image_mset path (mset ?ys) = mset keys"
    using path_collectDirs [of keys m] by (simp add: ms flip: mset_map)
  finally show "mset acc = mset (filter (\<lambda>d. 5 < countOf m d) keys)" by simp
  have "sorted_wrt (\<lambda>a b. countOf m (path b) \<le> countOf m (path a))
          (filter (\<lambda>dc. 5 < count dc) ?ys)"
  proof (rule sorted_wrt_filter, rule sorted_wrt_mono_rel [OF _ so])
    fix a b assume "a \<in> set ?ys" "b \<in> set ?ys" "\<not> byCount b a"
    then show "countOf m (path b) \<le> countOf m (path a)"
      using cnt by (simp add: byCount_def)
  qed
  then show "sorted_wrt (\<lambda>a b. countOf m b \<le> countOf m a) acc"
    by (simp add: acc sorted_wrt_map)
  have "map (\<lambda>dc. DirectoryLine (path dc) (count dc)) (filter (\<lambda>dc. 5 < count dc) ?ys)
        = map (\<lambda>dc. DirectoryLine (path dc) (countOf m (path dc)))
            (filter (\<lambda>dc. 5 < count dc) ?ys)"
    using cnt by (auto intro: map_cong)
  then show "snd (printDirectoryFileCounts sortSlice keys m)
           = HeaderLine # map (\<lambda>d. DirectoryLine d (countOf m d)) acc"
    by (simp add: acc printDirectoryFileCounts_def Let_def comp_def)
qed

lemma descending_unique:
  fixes xs ys :: "int list"
  assumes "sorted_wrt (\<lambda>a b. b \<le> a) xs" "sorted_wrt (\<lambda>a b. b \<le> a) ys" "mset xs = mset ys"
  shows "xs = ys"
proof -
  have "sorted (rev xs)" "sorted (rev ys)"
    using assms(1,2) by (simp_all add: sorted_wrt_rev)
  moreover have "mset (rev xs) = mset (rev ys)" using assms(3) by simp
  ultimately have "rev xs = rev ys"
    using properties_for_sort sorted_sort_id by metis
  then show ?thesis by simp
qed

subsection \<open>The examples\<close>

lemma photos_counted:
  "counted_files id ''root'' photos = [(''root/a.JPG'', 10), (''root/sub/c.png'', 20)]"
  by code_simp

lemma photos_read: "\<forall>v\<in>set (visits ''root'' photos). \<not> failed v"
  by code_simp

lemma photos_Dir: "Dir ''root/a.JPG'' = ''root''" "Dir ''root/sub/c.png'' = ''root/sub''"
  by code_simp+

lemma photos_scan:
  "scanDirectory id photos_world ''root'' =
     (30, foldl increment Map.empty [''root'', ''root/sub''], None,
      [FileLine ''root/a.JPG'' 10, FileLine ''root/sub/c.png'' 20])"
proof -
  have w: "photos_world ''root'' = Inr photos" by (simp add: photos_world_def)
  show ?thesis
    unfolding scan_all_read
      [where world = photos_world and root = "''root''" and node = photos, OF w photos_read]
      photos_counted
    by (simp add: photos_Dir)
qed

lemma twins_dirs:
  "map (\<lambda>(p, s). Dir p) (counted_files id ''twins'' twins)
     = replicate 6 ''twins/a'' @ replicate 6 ''twins/b''"
  by code_simp

lemma twins_read: "\<forall>v\<in>set (visits ''twins'' twins). \<not> failed v"
  by code_simp

lemma twins_counts_eq:
  "twins_counts = foldl increment Map.empty (replicate 6 ''twins/a'' @ replicate 6 ''twins/b'')"
proof -
  have w: "albums_world ''twins'' = Inr twins" by (simp add: albums_world_def)
  show ?thesis
    unfolding twins_counts_def
      scan_all_read [where world = albums_world and root = "''twins''" and node = twins, OF w twins_read]
      twins_dirs
    by simp
qed

lemma dom_twins_counts: "dom twins_counts = {''twins/a'', ''twins/b''}"
  unfolding twins_counts_eq dom_foldl_increment by auto

lemma countOf_twins_counts:
  "countOf twins_counts ''twins/a'' = 6" "countOf twins_counts ''twins/b'' = 6"
  unfolding twins_counts_eq countOf_foldl_increment by (simp_all add: countOf_def)

lemma albums_dirs:
  "map (\<lambda>(p, s). Dir p) (counted_files id ''albums'' albums)
     = replicate 6 ''albums/a'' @ replicate 7 ''albums/b'' @ replicate 5 ''albums/c''"
  by code_simp

lemma albums_read: "\<forall>v\<in>set (visits ''albums'' albums). \<not> failed v"
  by code_simp

lemma albums_counts_eq:
  "albums_counts = foldl increment Map.empty
     (replicate 6 ''albums/a'' @ replicate 7 ''albums/b'' @ replicate 5 ''albums/c'')"
proof -
  have w: "albums_world ''albums'' = Inr albums" by (simp add: albums_world_def)
  show ?thesis
    unfolding albums_counts_def
      scan_all_read
        [where world = albums_world and root = "''albums''" and node = albums, OF w albums_read]
      albums_dirs
    by simp
qed

lemma dom_albums_counts: "dom albums_counts = {''albums/a'', ''albums/b'', ''albums/c''}"
  unfolding albums_counts_eq dom_foldl_increment by auto

lemma countOf_albums_counts:
  "countOf albums_counts ''albums/a'' = 6" "countOf albums_counts ''albums/b'' = 7"
  "countOf albums_counts ''albums/c'' = 5"
  unfolding albums_counts_eq countOf_foldl_increment by (simp_all add: countOf_def)

section \<open>The claims\<close>

subsection \<open>The total size\<close>

text \<open>
  Claim C1, as stated for every tree, does not hold: a failed read ends the scan, and
  the total returned with the error leaves out the files not yet visited. In \<open>locked\<close>
  the directory \<open>private\<close> cannot be listed; the scan returns 4, the size of \<open>a.jpg\<close>,
  while the image files of the tree that lie under no ignored directory, \<open>a.jpg\<close> and
  \<open>z.png\<close>, have 12 bytes together.
\<close>

theorem total_size_counterexample:
  "locked_world ''media'' = Inr locked
   \<and> counted_files id ''media'' locked = [(''media/a.jpg'', 4), (''media/z.png'', 8)]
   \<and> fst (scanDirectory id locked_world ''media'') = 4
   \<and> fst (snd (snd (scanDirectory id locked_world ''media'')))
       = Some (PathError ''permission denied'')
   \<and> fst (scanDirectory id locked_world ''media'')
       \<noteq> sum_list (map snd (counted_files id ''media'' locked))"
proof -
  have 1: "locked_world ''media'' = Inr locked" by (simp add: locked_world_def)
  have 2: "counted_files id ''media'' locked = [(''media/a.jpg'', 4), (''media/z.png'', 8)]"
    by code_simp
  have 3: "fst (scanDirectory id locked_world ''media'') = 4" by code_simp
  have 4: "fst (snd (snd (scanDirectory id locked_world ''media'')))
       = Some (PathError ''permission denied'')" by code_simp
  show ?thesis unfolding 2 3 4 using 1 by simp
qed

text \<open>
  Claim C1, amended. When the scan of the tree \<open>node\<close> found at \<open>root\<close> returns no error,
  the total it returns is the sum of the sizes of the counted files: the non-directory
  entries of the tree that lie under no directory whose path contains an entry of the
  ignore list, and whose extension, in lower case, is a known image extension. The sum
  is taken in \<open>int64\<close>; it is the exact sum whenever the exact sum is an \<open>int64\<close>.
\<close>

theorem scanDirectory_total_size:
  assumes "world root = Inr node"
    and "scanDirectory ul world root = (sz, m, None, out)"
  shows "sz = sum_list (map snd (counted_files ul root node))
       \<and> (- (2 ^ 63) \<le> (\<Sum>f\<leftarrow>counted_files ul root node. sint (snd f))
            \<and> (\<Sum>f\<leftarrow>counted_files ul root node. sint (snd f)) < 2 ^ 63
          \<longrightarrow> sint sz = (\<Sum>f\<leftarrow>counted_files ul root node. sint (snd f)))"
proof -
  let ?fs = "counted_files ul root node"
  have sz: "sz = sum_list (map snd ?fs)"
    using scan_ok(2) [OF assms(2) assms(1)] .
  have e: "sum_list (map sint (map snd ?fs)) = (\<Sum>f\<leftarrow>?fs. sint (snd f))"
    by (simp add: comp_def)
  have "sint sz = (\<Sum>f\<leftarrow>?fs. sint (snd f))"
    if "- (2 ^ 63) \<le> (\<Sum>f\<leftarrow>?fs. sint (snd f))" "(\<Sum>f\<leftarrow>?fs. sint (snd f)) < 2 ^ 63"
    using sint_sum_list [of "map snd ?fs"] that unfolding e sz by blast
  then show ?thesis using sz by blast
qed

theorem scanDirectory_total_size_witness:
  "photos_world ''root'' = Inr photos
   \<and> scanDirectory id photos_world ''root'' =
       (30, foldl increment Map.empty [''root'', ''root/sub''], None,
        [FileLine ''root/a.JPG'' 10, FileLine ''root/sub/c.png'' 20])
   \<and> counted_files id ''root'' photos = [(''root/a.JPG'', 10), (''root/sub/c.png'', 20)]
   \<and> (30 :: 64 word) = 10 + 20
   \<and> sint (30 :: 64 word) = 10 + 20"
proof -
  have w: "photos_world ''root'' = Inr photos" by (simp add: photos_world_def)
  from scanDirectory_total_size
    [where world = photos_world and root = "''root''" and node = photos, OF w photos_scan]
  show ?thesis
    using w photos_scan by (simp add: photos_counted)
qed

subsection \<open>The accepted directories\<close>

text \<open>
  Claim C2. Let \<open>keys\<close> be the keys of the map in the order \<open>range\<close> yields them, each
  once, and let the sort keep its promise. Then the list \<open>printDirectoryFileCounts\<close>
  returns holds exactly the directories whose count is greater than 5, each once, in
  descending order of count; and it prints one line for each of them, in that order.
\<close>

theorem accepted_directories:
  assumes "distinct keys" and "set keys = dom m"
    and "sortSlice_post byCount (collectDirs keys m) (sortSlice byCount (collectDirs keys m))"
  shows "set (fst (printDirectoryFileCounts sortSlice keys m)) = {d. \<exists>c. m d = Some c \<and> 5 < c}
       \<and> distinct (fst (printDirectoryFileCounts sortSlice keys m))
       \<and> sorted_wrt (\<lambda>a b. countOf m b \<le> countOf m a)
            (fst (printDirectoryFileCounts sortSlice keys m))
       \<and> snd (printDirectoryFileCounts sortSlice keys m)
           = HeaderLine # map (\<lambda>d. DirectoryLine d (countOf m d))
               (fst (printDirectoryFileCounts sortSlice keys m))"
proof -
  let ?acc = "fst (printDirectoryFileCounts sortSlice keys m)"
  note f = accepted_facts [where sortSlice = sortSlice and keys = keys and m = m, OF assms(3)]
  have "set ?acc = set (filter (\<lambda>d. 5 < countOf m d) keys)"
    using f(1) by (rule mset_eq_setD)
  also have "\<dots> = {d. \<exists>c. m d = Some c \<and> 5 < c}"
    using assms(2) by (auto simp: countOf_def split: option.splits)
  finally have 1: "set ?acc = {d. \<exists>c. m d = Some c \<and> 5 < c}" .
  have "distinct (filter (\<lambda>d. 5 < countOf m d) keys)" using assms(1) by simp
  then have 2: "distinct ?acc" using f(1) mset_eq_imp_distinct_iff by blast
  show ?thesis using 1 2 f(2,3) by blast
qed

theorem accepted_directories_witness:
  "distinct [''a'', ''b'', ''c'']
   \<and> set [''a'', ''b'', ''c''] = dom shelf_counts
   \<and> sortSlice_post byCount (collectDirs [''a'', ''b'', ''c''] shelf_counts)
        (insertionSort byCount (collectDirs [''a'', ''b'', ''c''] shelf_counts))
   \<and> printDirectoryFileCounts insertionSort [''a'', ''b'', ''c''] shelf_counts
       = ([''c'', ''a''], [HeaderLine, DirectoryLine ''c'' 9, DirectoryLine ''a'' 6])
   \<and> set [''c'', ''a''] = {d. \<exists>c. shelf_counts d = Some c \<and> 5 < c}"
proof -
  have 1: "distinct [''a'', ''b'', ''c'']" by simp
  have 2: "set [''a'', ''b'', ''c''] = dom shelf_counts" by (auto simp: shelf_counts_def)
  have 3: "printDirectoryFileCounts insertionSort [''a'', ''b'', ''c''] shelf_counts
       = ([''c'', ''a''], [HeaderLine, DirectoryLine ''c'' 9, DirectoryLine ''a'' 6])"
    unfolding shelf_counts_def by code_simp
  from accepted_directories
    [where sortSlice = insertionSort and keys = "[''a'', ''b'', ''c'']" and m = shelf_counts,
     OF 1 2 insertionSort_post]
  show ?thesis
    using 1 2 3 insertionSort_post by simp
qed

subsection \<open>The counts\<close>

text \<open>
  Claim C3. The count the scan returns for a directory \<open>D\<close> (zero when \<open>D\<close> is not a
  key) is the number of file lines printed for files whose \<open>filepath.Dir\<close> is \<open>D\<close>;
  and when the scan returns no error, it is the number of counted files of the tree
  whose \<open>filepath.Dir\<close> is \<open>D\<close>. Files deeper beneath \<open>D\<close> count for their own
  directory, not for \<open>D\<close>.
\<close>

theorem dirFileCount_counts_direct_children:
  assumes "world root = Inr node"
    and "scanDirectory ul world root = (sz, m, err, out)"
  shows "countOf m D = int (length (filter (\<lambda>l. lineDir l = Some D) out))
       \<and> (err = None \<longrightarrow>
            countOf m D = int (length (filter (\<lambda>(q, s). Dir q = D) (counted_files ul root node))))"
proof -
  obtain fs where fs: "out = map (\<lambda>(p, s). FileLine p s) fs"
    "m = foldl increment Map.empty (map (\<lambda>(p, s). Dir p) fs)"
    using scan_prefix [OF assms(2)] by blast
  have "length (filter (\<lambda>l. lineDir l = Some D) (map (\<lambda>(p, s). FileLine p s) fs))
        = length (filter (\<lambda>(p, s). Dir p = D) fs)"
    by (induction fs) auto
  then have a: "countOf m D = int (length (filter (\<lambda>l. lineDir l = Some D) out))"
    unfolding fs countOf_tally by simp
  have b: "countOf m D = int (length (filter (\<lambda>(q, s). Dir q = D) (counted_files ul root node)))"
    if "err = None"
    using scan_ok(3) [OF assms(2) [unfolded that] assms(1)]
    by (simp add: countOf_tally)
  show ?thesis using a b by blast
qed

theorem dirFileCount_counts_direct_children_witness:
  "photos_world ''root'' = Inr photos
   \<and> scanDirectory id photos_world ''root'' =
       (30, foldl increment Map.empty [''root'', ''root/sub''], None,
        [FileLine ''root/a.JPG'' 10, FileLine ''root/sub/c.png'' 20])
   \<and> counted_files id ''root'' photos = [(''root/a.JPG'', 10), (''root/sub/c.png'', 20)]
   \<and> Dir ''root/a.JPG'' = ''root'' \<and> Dir ''root/sub/c.png'' = ''root/sub''
   \<and> countOf (foldl increment Map.empty [''root'', ''root/sub'']) ''root'' = 1
   \<and> countOf (foldl increment Map.empty [''root'', ''root/sub'']) ''root/sub'' = 1"
proof -
  have w: "photos_world ''root'' = Inr photos" by (simp add: photos_world_def)
  from dirFileCount_counts_direct_children
      [where world = photos_world and root = "''root''" and D = "''root''", OF w photos_scan]
    dirFileCount_counts_direct_children
      [where world = photos_world and root = "''root''" and D = "''root/sub''", OF w photos_scan]
  show ?thesis
    using w photos_scan by (simp add: photos_counted photos_Dir)
qed

subsection \<open>Ignored directories\<close>

text \<open>
  Claim C4. The walk of a directory whose path contains an entry of the ignore list
  returns \<open>SkipDir\<close> at once and leaves the total, the counts and the output as they
  were, whatever the directory holds. And the scan of a file system gives the same
  total, counts, error and output as the scan of the file system in which every such
  directory is empty: nothing beneath them is counted or printed.
\<close>

theorem ignored_directories_have_no_effect:
  assumes "ignored p"
  shows "walk (walkFn ul) p (Directory es) st = (Some SkipDir, st)
       \<and> scanDirectory ul (prune_world world) root = scanDirectory ul world root"
proof -
  have "walk (walkFn ul) p (Directory es) st = (Some SkipDir, st)"
    using assms walk_run(1) [of ul p "Directory es" st] by simp
  moreover have "scanDirectory ul (prune_world world) root = scanDirectory ul world root"
    by (simp add: scanDirectory_run visits_root_prune)
  ultimately show ?thesis by blast
qed

theorem ignored_directories_have_no_effect_witness:
  "ignored ''backup/Users'' \<and> ignored ''backup/MyUsers_old'' \<and> \<not> ignored ''backup/users''
   \<and> all_files ''backup'' backup =
       [([''backup'', ''backup/MyUsers_old''], ''backup/MyUsers_old/x.gif'', 4),
        ([''backup'', ''backup/Users''], ''backup/Users/pic.jpg'', 7),
        ([''backup''], ''backup/ok.png'', 3),
        ([''backup'', ''backup/users''], ''backup/users/pic2.jpg'', 9)]
   \<and> walk (walkFn id) ''backup/Users'' (Directory [(''pic.jpg'', Inr (File 7))]) start
       = (Some SkipDir, start)
   \<and> snd (snd (snd (scanDirectory id backup_world ''backup''))) =
       [FileLine ''backup/ok.png'' 3, FileLine ''backup/users/pic2.jpg'' 9]
   \<and> fst (scanDirectory id backup_world ''backup'') = 12
   \<and> scanDirectory id (prune_world backup_world) ''backup''
       = scanDirectory id backup_world ''backup''"
proof -
  have 0: "ignored ''backup/Users''" "ignored ''backup/MyUsers_old''" "\<not> ignored ''backup/users''"
    by code_simp+
  have 1: "all_files ''backup'' backup =
       [([''backup'', ''backup/MyUsers_old''], ''backup/MyUsers_old/x.gif'', 4),
        ([''backup'', ''backup/Users''], ''backup/Users/pic.jpg'', 7),
        ([''backup''], ''backup/ok.png'', 3),
        ([''backup'', ''backup/users''], ''backup/users/pic2.jpg'', 9)]"
    by code_simp
  have 2: "snd (snd (snd (scanDirectory id backup_world ''backup''))) =
       [FileLine ''backup/ok.png'' 3, FileLine ''backup/users/pic2.jpg'' 9]"
    by code_simp
  have 3: "fst (scanDirectory id backup_world ''backup'') = 12"
    by code_simp
  from ignored_directories_have_no_effect
    [OF 0(1), of id "[(''pic.jpg'', Inr (File 7))]" start backup_world "''backup''"]
  show ?thesis
    using 0 1 2 3 by blast
qed

subsection \<open>The classification of an entry\<close>

text \<open>
  Claim C5. On an entry that is not a directory the callback returns no error, and
  records the file exactly when the lower-cased extension of its path is a key of
  \<open>imageExtensions\<close>. For an extension of ASCII bytes that is so exactly when the
  extension equals a key up to the case of its letters. A path whose last element has
  no dot has the empty extension, which is no key: it is never recorded.
\<close>

theorem extension_classification:
  assumes "\<not> IsDir i"
  shows "walkFn ul p (Some i) None st =
           (None,
            if isImageExt (ToLower ul (Ext p)) then
              st\<lparr>stdout := stdout st @ [FileLine p (Size i)],
                 totalSize := totalSize st + Size i,
                 dirFileCount := increment (dirFileCount st) (Dir p)\<rparr>
            else st)
       \<and> (isASCII (Ext p) \<longrightarrow>
            (isImageExt (ToLower ul (Ext p))
               \<longleftrightarrow> (\<exists>k. k \<in> dom imageExtensions \<and> equalFoldASCII (Ext p) k)))
       \<and> (CHR ''.'' \<notin> set (lastElement p) \<longrightarrow> \<not> isImageExt (ToLower ul (Ext p)))"
proof -
  have a: "walkFn ul p (Some i) None st =
           (None,
            if isImageExt (ToLower ul (Ext p)) then
              st\<lparr>stdout := stdout st @ [FileLine p (Size i)],
                 totalSize := totalSize st + Size i,
                 dirFileCount := increment (dirFileCount st) (Dir p)\<rparr>
            else st)"
    using assms by (simp add: walkFn_def ignoreLoop_eq)
  have b: "isImageExt (ToLower ul (Ext p))
             \<longleftrightarrow> (\<exists>k. k \<in> dom imageExtensions \<and> equalFoldASCII (Ext p) k)"
    if "isASCII (Ext p)"
  proof
    assume "isImageExt (ToLower ul (Ext p))"
    then have k: "map lowerASCII (Ext p) \<in> dom imageExtensions"
      using that by (simp add: ToLower_def isImageExt_iff)
    then have "equalFoldASCII (Ext p) (map lowerASCII (Ext p))"
      using imageExtensions_lower [OF k] by (simp add: equalFoldASCII_def)
    then show "\<exists>k. k \<in> dom imageExtensions \<and> equalFoldASCII (Ext p) k"
      using k by blast
  next
    assume "\<exists>k. k \<in> dom imageExtensions \<and> equalFoldASCII (Ext p) k"
    then obtain k where k: "k \<in> dom imageExtensions" "equalFoldASCII (Ext p) k" by blast
    then have "map lowerASCII (Ext p) = k"
      using imageExtensions_lower [OF k(1)] by (simp add: equalFoldASCII_def)
    then show "isImageExt (ToLower ul (Ext p))"
      using that k(1) by (simp add: ToLower_def isImageExt_iff)
  qed
  have c: "\<not> isImageExt (ToLower ul (Ext p))" if "CHR ''.'' \<notin> set (lastElement p)"
  proof -
    have "Ext p = []" using that Ext_Nil_iff by blast
    then show ?thesis by (simp add: ToLower_def isASCII_def not_isImageExt_Nil)
  qed
  show ?thesis using a b c by blast
qed

theorem extension_classification_witness:
  "\<not> IsDir \<lparr>IsDir = False, Size = 10\<rparr>
   \<and> Ext ''root/a.JPG'' = ''.JPG'' \<and> isASCII ''.JPG'' \<and> equalFoldASCII ''.JPG'' ''.jpg''
   \<and> ''.jpg'' \<in> dom imageExtensions
   \<and> isImageExt (ToLower id (Ext ''root/a.JPG''))
   \<and> CHR ''.'' \<notin> set (lastElement ''root.d/README'')
   \<and> walkFn id ''root.d/README'' (Some \<lparr>IsDir = False, Size = 10\<rparr>) None start
       = (None, start)"
proof -
  have i: "\<not> IsDir \<lparr>IsDir = False, Size = 10\<rparr>" by simp
  have 1: "Ext ''root/a.JPG'' = ''.JPG''" by code_simp
  have 2: "isASCII ''.JPG''" by code_simp
  have 3: "equalFoldASCII ''.JPG'' ''.jpg''" by code_simp
  have 4: "''.jpg'' \<in> dom imageExtensions" by (simp add: imageExtensions_def)
  have 5: "CHR ''.'' \<notin> set (lastElement ''root.d/README'')" by code_simp
  from extension_classification [OF i, of id "''root/a.JPG''" start]
    extension_classification [OF i, of id "''root.d/README''" start]
  show ?thesis
    using i 1 2 3 4 5 by auto
qed

subsection \<open>Errors and usage\<close>

lemma read_error_after:
  assumes "visits_root root (world root) = pre @ (q, i, Some e) # post"
    and "\<forall>v\<in>set pre. \<not> failed v"
    and "1 < length args" and "args ! 1 = root"
  shows "scanDirectory ul world root =
           (sum_list (map snd (matches ul pre)),
            foldl increment Map.empty (map (\<lambda>(p, s). Dir p) (matches ul pre)),
            Some e,
            map (\<lambda>(p, s). FileLine p s) (matches ul pre))
       \<and> main ul sortSlice rangeOrder world args =
           ScanningLine root # map (\<lambda>(p, s). FileLine p s) (matches ul pre) @ [ErrorLine e]"
proof -
  let ?vs = "visits_root root (world root)"
  have wf: "\<forall>v\<in>set ?vs. wellformed v" by (rule visits_root_wellformed)
  then have "wellformed (q, i, Some e)" using assms(1) by simp
  then obtain msg where e: "e = PathError msg" by (auto simp: wellformed_def)
  have pre: "\<forall>v\<in>set pre. wellformed v \<and> \<not> failed v"
    using wf assms(1,2) by simp
  have "run ul ?vs start = (Some e, record_files start (matches ul pre))"
    unfolding assms(1) e by (rule run_err [OF pre])
  then have s: "scanDirectory ul world root =
           (sum_list (map snd (matches ul pre)),
            foldl increment Map.empty (map (\<lambda>(p, s). Dir p) (matches ul pre)),
            Some e,
            map (\<lambda>(p, s). FileLine p s) (matches ul pre))"
    by (simp add: scanDirectory_run record_files_def start_def)
  have "\<not> length args < 2" using assms(3) by simp
  then have "main ul sortSlice rangeOrder world args =
           ScanningLine root # map (\<lambda>(p, s). FileLine p s) (matches ul pre) @ [ErrorLine e]"
    using s assms(4) by (simp add: main_def)
  then show ?thesis using s by blast
qed

text \<open>
  Claim C6. Let the reading of some entry of the traversal fail. Then there is a first
  such entry, with error \<open>e\<close>, after the entries \<open>pre\<close> that were read without error;
  \<open>scanDirectory\<close> returns \<open>e\<close>; what it counted and printed are the image files among
  \<open>pre\<close> alone, so nothing is visited after the failure; and \<open>main\<close> prints the scanning
  line, those file lines and the error message, and neither the sizes nor the report.
\<close>

theorem read_error_aborts_scan:
  assumes "v \<in> set (visits_root root (world root))" and "failed v"
    and "1 < length args" and "args ! 1 = root"
  shows "\<exists>pre q i e post.
           visits_root root (world root) = pre @ (q, i, Some e) # post
         \<and> (\<forall>u\<in>set pre. \<not> failed u)
         \<and> scanDirectory ul world root =
             (sum_list (map snd (matches ul pre)),
              foldl increment Map.empty (map (\<lambda>(p, s). Dir p) (matches ul pre)),
              Some e,
              map (\<lambda>(p, s). FileLine p s) (matches ul pre))
         \<and> main ul sortSlice rangeOrder world args =
             ScanningLine root # map (\<lambda>(p, s). FileLine p s) (matches ul pre) @ [ErrorLine e]"
proof -
  let ?vs = "visits_root root (world root)"
  have "\<exists>x\<in>set ?vs. failed x" using assms(1,2) by blast
  then obtain pre x post where s: "?vs = pre @ x # post" "failed x" "\<forall>u\<in>set pre. \<not> failed u"
    using split_list_first_prop [of ?vs failed] by blast
  obtain q i e' where x: "x = (q, i, e')" by (cases x)
  then obtain e where e: "e' = Some e" using s(2) by (auto simp: failed_def)
  have v: "?vs = pre @ (q, i, Some e) # post" using s(1) x e by simp
  from read_error_after
    [where world = world and root = root and ul = ul and sortSlice = sortSlice
       and rangeOrder = rangeOrder, OF v s(3) assms(3,4)] v s(3)
  show ?thesis by blast
qed

theorem read_error_aborts_scan_witness:
  "visits_root ''media'' (locked_world ''media'') =
     [(''media'', Some \<lparr>IsDir = True, Size = 0\<rparr>, None),
      (''media/a.jpg'', Some \<lparr>IsDir = False, Size = 4\<rparr>, None),
      (''media/private'', Some \<lparr>IsDir = True, Size = 0\<rparr>, Some (PathError ''permission denied'')),
      (''media/z.png'', Some \<lparr>IsDir = False, Size = 8\<rparr>, None)]
   \<and> failed (''media/private'', Some \<lparr>IsDir = True, Size = 0\<rparr>,
         Some (PathError ''permission denied''))
   \<and> (\<exists>pre q i e post.
           visits_root ''media'' (locked_world ''media'') = pre @ (q, i, Some e) # post
         \<and> (\<forall>u\<in>set pre. \<not> failed u)
         \<and> scanDirectory id locked_world ''media'' =
             (sum_list (map snd (matches id pre)),
              foldl increment Map.empty (map (\<lambda>(p, s). Dir p) (matches id pre)),
              Some e,
              map (\<lambda>(p, s). FileLine p s) (matches id pre))
         \<and> main id insertionSort (\<lambda>m. []) locked_world [''scan_images'', ''media''] =
             ScanningLine ''media'' # map (\<lambda>(p, s). FileLine p s) (matches id pre)
             @ [ErrorLine e])
   \<and> main id insertionSort (\<lambda>m. []) locked_world [''scan_images'', ''media'']
       = [ScanningLine ''media'', FileLine ''media/a.jpg'' 4,
          ErrorLine (PathError ''permission denied'')]"
proof -
  let ?bad = "(''media/private'', Some \<lparr>IsDir = True, Size = 0\<rparr>,
                Some (PathError ''permission denied''))"
  have v: "visits_root ''media'' (locked_world ''media'') =
     [(''media'', Some \<lparr>IsDir = True, Size = 0\<rparr>, None),
      (''media/a.jpg'', Some \<lparr>IsDir = False, Size = 4\<rparr>, None),
      ?bad,
      (''media/z.png'', Some \<lparr>IsDir = False, Size = 8\<rparr>, None)]"
    by code_simp
  have i: "?bad \<in> set (visits_root ''media'' (locked_world ''media''))"
    unfolding v by simp
  have f: "failed ?bad" by (simp add: failed_def)
  have a: "1 < length [''scan_images'', ''media'']" "[''scan_images'', ''media''] ! 1 = ''media''"
    by simp_all
  have m: "main id insertionSort (\<lambda>m. []) locked_world [''scan_images'', ''media'']
       = [ScanningLine ''media'', FileLine ''media/a.jpg'' 4,
          ErrorLine (PathError ''permission denied'')]"
    by code_simp
  from read_error_aborts_scan
    [where world = locked_world and root = "''media''" and ul = id
       and sortSlice = insertionSort and rangeOrder = "\<lambda>m. []", OF i f a]
  show ?thesis
    using v f m by blast
qed

text \<open>
  Claim C7. With fewer than two elements in \<open>os.Args\<close>, that is without an argument
  after the program's name, \<open>main\<close> prints the usage message and nothing else, whatever
  the file system: nothing is scanned.
\<close>

theorem usage_without_argument:
  assumes "length args < 2"
  shows "main ul sortSlice rangeOrder world args = [UsageLine]"
  using assms by (simp add: main_def)

theorem usage_without_argument_witness:
  "length [''scan_images''] < 2
   \<and> main id insertionSort (\<lambda>m. []) photos_world [''scan_images''] = [UsageLine]"
  using usage_without_argument [of "[''scan_images'']" id insertionSort "\<lambda>m. []" photos_world]
  by simp

subsection \<open>A root that contains \<open>Users\<close>\<close>



subsection \<open>Two runs\<close>

text \<open>
  Claim C9, as stated, does not hold: two runs on the same tree may return the accepted
  directories in different orders. In \<open>twins\<close> both directories hold six images. When
  \<open>range\<close> yields them in one order in one run and in the other in the next (Go starts
  the iteration over a map at a random place), the insertion sort that \<open>sort.Slice\<close>
  runs on a short slice leaves each order as it is, since neither count is greater.
\<close>

theorem accepted_order_counterexample:
  "distinct [''twins/a'', ''twins/b''] \<and> set [''twins/a'', ''twins/b''] = dom twins_counts
   \<and> distinct [''twins/b'', ''twins/a''] \<and> set [''twins/b'', ''twins/a''] = dom twins_counts
   \<and> sortSlice_post byCount (collectDirs [''twins/a'', ''twins/b''] twins_counts)
        (insertionSort byCount (collectDirs [''twins/a'', ''twins/b''] twins_counts))
   \<and> sortSlice_post byCount (collectDirs [''twins/b'', ''twins/a''] twins_counts)
        (insertionSort byCount (collectDirs [''twins/b'', ''twins/a''] twins_counts))
   \<and> fst (printDirectoryFileCounts insertionSort [''twins/a'', ''twins/b''] twins_counts)
       = [''twins/a'', ''twins/b'']
   \<and> fst (printDirectoryFileCounts insertionSort [''twins/b'', ''twins/a''] twins_counts)
       = [''twins/b'', ''twins/a'']
   \<and> fst (printDirectoryFileCounts insertionSort [''twins/a'', ''twins/b''] twins_counts)
       \<noteq> fst (printDirectoryFileCounts insertionSort [''twins/b'', ''twins/a''] twins_counts)"
proof -
  have 1: "fst (printDirectoryFileCounts insertionSort [''twins/a'', ''twins/b''] twins_counts)
       = [''twins/a'', ''twins/b'']"
    by (simp add: printDirectoryFileCounts_def collectDirs_def insertionSort_def byCount_def
        countOf_twins_counts)
  have 2: "fst (printDirectoryFileCounts insertionSort [''twins/b'', ''twins/a''] twins_counts)
       = [''twins/b'', ''twins/a'']"
    by (simp add: printDirectoryFileCounts_def collectDirs_def insertionSort_def byCount_def
        countOf_twins_counts)
  show ?thesis
    unfolding 1 2 dom_twins_counts using insertionSort_post by auto
qed

text \<open>
  Claim C9, amended. The scan is a function of the tree, so two runs on the same tree
  return the same total and the same counts \<open>m\<close>. Whatever the orders in which \<open>range\<close>
  yields the keys in the two runs, and whatever the two sorts do with equal counts,
  the two accepted lists hold the same directories, each as often, and the same
  sequence of counts; and they are the same list when the counts of the accepted
  directories are all different.
\<close>

theorem two_runs_agree_up_to_ties:
  assumes "scanDirectory ul world root = (sz, m, err, out)"
    and "distinct keysA" "set keysA = dom m" "distinct keysB" "set keysB = dom m"
    and "sortSlice_post byCount (collectDirs keysA m) (sortSliceA byCount (collectDirs keysA m))"
    and "sortSlice_post byCount (collectDirs keysB m) (sortSliceB byCount (collectDirs keysB m))"
  shows "mset (fst (printDirectoryFileCounts sortSliceA keysA m))
           = mset (fst (printDirectoryFileCounts sortSliceB keysB m))
       \<and> map (countOf m) (fst (printDirectoryFileCounts sortSliceA keysA m))
           = map (countOf m) (fst (printDirectoryFileCounts sortSliceB keysB m))
       \<and> (distinct (map (countOf m) (fst (printDirectoryFileCounts sortSliceA keysA m))) \<longrightarrow>
            fst (printDirectoryFileCounts sortSliceA keysA m)
              = fst (printDirectoryFileCounts sortSliceB keysB m))"
proof -
  let ?a1 = "fst (printDirectoryFileCounts sortSliceA keysA m)"
  let ?a2 = "fst (printDirectoryFileCounts sortSliceB keysB m)"
  note f1 = accepted_facts [where sortSlice = sortSliceA and keys = keysA and m = m, OF assms(6)]
  note f2 = accepted_facts [where sortSlice = sortSliceB and keys = keysB and m = m, OF assms(7)]
  have "mset keysA = mset keysB"
    using assms(2-5) by (simp add: set_eq_iff_mset_eq_distinct [symmetric])
  then have ms: "mset ?a1 = mset ?a2"
    using f1(1) f2(1) by simp
  have "sorted_wrt (\<lambda>a b. b \<le> a) (map (countOf m) ?a1)"
    "sorted_wrt (\<lambda>a b. b \<le> a) (map (countOf m) ?a2)"
    using f1(2) f2(2) by (simp_all add: sorted_wrt_map)
  moreover have "mset (map (countOf m) ?a1) = mset (map (countOf m) ?a2)"
    using ms by (metis mset_map)
  ultimately have eq: "map (countOf m) ?a1 = map (countOf m) ?a2"
    by (rule descending_unique)
  have "?a1 = ?a2" if d: "distinct (map (countOf m) ?a1)"
  proof -
    have "inj_on (countOf m) (set ?a1)" using d by (simp add: distinct_map)
    moreover have "set ?a2 = set ?a1" using ms mset_eq_setD by blast
    ultimately have "inj_on (countOf m) (set ?a1 \<union> set ?a2)" by simp
    then show ?thesis using eq by (simp add: inj_on_map_eq_map)
  qed
  then show ?thesis using ms eq by blast
qed

theorem two_runs_agree_up_to_ties_witness:
  "fst (snd (scanDirectory id albums_world ''albums'')) = albums_counts
   \<and> distinct [''albums/a'', ''albums/b'', ''albums/c'']
   \<and> set [''albums/a'', ''albums/b'', ''albums/c''] = dom albums_counts
   \<and> distinct [''albums/c'', ''albums/b'', ''albums/a'']
   \<and> set [''albums/c'', ''albums/b'', ''albums/a''] = dom albums_counts
   \<and> fst (printDirectoryFileCounts insertionSort
            [''albums/a'', ''albums/b'', ''albums/c''] albums_counts)
       = [''albums/b'', ''albums/a'']
   \<and> fst (printDirectoryFileCounts insertionSort
            [''albums/c'', ''albums/b'', ''albums/a''] albums_counts)
       = [''albums/b'', ''albums/a'']
   \<and> map (countOf albums_counts) [''albums/b'', ''albums/a''] = [7, 6]"
proof -
  obtain sz m err out where
    s: "scanDirectory id albums_world ''albums'' = (sz, m, err, out)"
    by (cases "scanDirectory id albums_world ''albums''")
  have m: "m = albums_counts" by (simp add: albums_counts_def s)
  have k1: "distinct [''albums/a'', ''albums/b'', ''albums/c'']"
    "set [''albums/a'', ''albums/b'', ''albums/c''] = dom albums_counts"
    unfolding dom_albums_counts by auto
  have k2: "distinct [''albums/c'', ''albums/b'', ''albums/a'']"
    "set [''albums/c'', ''albums/b'', ''albums/a''] = dom albums_counts"
    unfolding dom_albums_counts by auto
  have 1: "fst (printDirectoryFileCounts insertionSort
            [''albums/a'', ''albums/b'', ''albums/c''] albums_counts)
       = [''albums/b'', ''albums/a'']"
    by (simp add: printDirectoryFileCounts_def collectDirs_def insertionSort_def byCount_def
        countOf_albums_counts)
  have 2: "fst (printDirectoryFileCounts insertionSort
            [''albums/c'', ''albums/b'', ''albums/a''] albums_counts)
       = [''albums/b'', ''albums/a'']"
    by (simp add: printDirectoryFileCounts_def collectDirs_def insertionSort_def byCount_def
        countOf_albums_counts)
  have 0: "fst (snd (scanDirectory id albums_world ''albums'')) = albums_counts"
    by (simp only: albums_counts_def)
  from two_runs_agree_up_to_ties
    [where world = albums_world and root = "''albums''" and ul = id
       and sortSliceA = insertionSort and sortSliceB = insertionSort,
     OF s [unfolded m] k1 k2 insertionSort_post insertionSort_post]
  show ?thesis
    using 0 k1 k2 1 2 by (simp add: countOf_albums_counts)
qed

subsection \<open>No zero counts\<close>

text \<open>
  Claim C10. Whatever the outcome of the scan, every key of the map it returns has a
  count of at least one, and a file line was printed for a file whose \<open>filepath.Dir\<close>
  is that key: a directory without image files is no key.
\<close>

theorem dirFileCount_positive:
  assumes "scanDirectory ul world root = (sz, m, err, out)" and "m D = Some c"
  shows "1 \<le> c \<and> (\<exists>q s. FileLine q s \<in> set out \<and> Dir q = D)"
proof -
  obtain fs where fs: "out = map (\<lambda>(p, s). FileLine p s) fs"
    "m = foldl increment Map.empty (map (\<lambda>(p, s). Dir p) fs)"
    using scan_prefix [OF assms(1)] by blast
  have "D \<in> dom m" using assms(2) by blast
  then have "D \<in> set (map (\<lambda>(p, s). Dir p) fs)"
    by (simp add: fs(2) dom_foldl_increment)
  then obtain q s where qs: "(q, s) \<in> set fs" "Dir q = D" by auto
  then have "FileLine q s \<in> set out" by (force simp: fs(1))
  moreover have "filter (\<lambda>(p, s). Dir p = D) fs \<noteq> []"
    using qs by (force simp: filter_empty_conv)
  then have "1 \<le> countOf m D"
    unfolding fs(2) countOf_tally by (cases "filter (\<lambda>(p, s). Dir p = D) fs") simp_all
  ultimately show ?thesis using qs assms(2) by (auto simp: countOf_def)
qed

theorem dirFileCount_positive_witness:
  "scanDirectory id photos_world ''root'' =
       (30, foldl increment Map.empty [''root'', ''root/sub''], None,
        [FileLine ''root/a.JPG'' 10, FileLine ''root/sub/c.png'' 20])
   \<and> foldl increment Map.empty [''root'', ''root/sub''] ''root'' = Some 1
   \<and> (1 :: int) \<le> 1
   \<and> Dir ''root/a.JPG'' = ''root''"
proof -
  have m: "foldl increment Map.empty [''root'', ''root/sub''] ''root'' = Some 1"
    by (simp add: increment_def countOf_def)
  from dirFileCount_positive
    [where world = photos_world and root = "''root''" and ul = id, OF photos_scan m]
  show ?thesis
    using photos_scan m by (simp add: photos_Dir)
qed

end
